theory Spec2Isabelle
  imports Main
begin

section \<open>Result type and errors\<close>

text \<open>
  The interpreter (src/interpreter/safe\_malbolge.py) never raises: every fallible
  operation returns \<open>Ok v\<close> or \<open>Err msg\<close>.  A result is a sum, \<open>Inr v\<close> for \<open>Ok v\<close> and
  \<open>Inl e\<close> for \<open>Err e\<close>.  The messages are formatted strings; each constructor below is one
  message format and carries the values interpolated into it.
\<close>

datatype error =
    InvalidCodePoint int          \<comment> \<open>"Invalid code point: {code}"\<close>
  | ReadOutOfBounds int           \<comment> \<open>"Memory read out of bounds: {addr}"\<close>
  | WriteOutOfBounds int          \<comment> \<open>"Memory write out of bounds: {addr}"\<close>
  | ProgramTooLarge nat           \<comment> \<open>"Program too large: {len(code)} > {SIZE}"\<close>
  | InvalidCharacter nat int      \<comment> \<open>"Invalid character at position {i}: {char}"\<close>
  | FailedFetch error             \<comment> \<open>"Failed to fetch instruction: {error}"\<close>
  | FailedDecrypt error           \<comment> \<open>"Failed to decrypt: {error}"\<close>
  | ExecutionError int error      \<comment> \<open>"Execution error at cycle {cycles}: {error}"\<close>
  | LimitExceeded int             \<comment> \<open>"Execution limit exceeded ({max\_cycles} cycles)"\<close>

section \<open>Ternary arithmetic\<close>

datatype trit = T0 | T1 | T2

fun trit_value :: "trit \<Rightarrow> int" where
  "trit_value T0 = 0"
| "trit_value T1 = 1"
| "trit_value T2 = 2"

text \<open>\<open>Trit(v)\<close>, the enum member with value \<open>v\<close>; the only caller passes \<open>n % 3\<close>.\<close>

definition Trit :: "int \<Rightarrow> trit" where
  "Trit v = (if v = 0 then T0 else if v = 1 then T1 else T2)"

text \<open>
  A \<open>Tryte\<close> object is a frozen dataclass with the single field \<open>value\<close>; it is
  represented by that integer.  The constructor runs \<open>__post_init__\<close>, which reduces
  the value modulo \<open>MAX_VALUE + 1\<close> (Python's \<open>%\<close> with a positive modulus is \<open>mod\<close> on
  \<open>int\<close>: the result is never negative).
\<close>

type_synonym tryte = int

definition MAX_VALUE :: int where
  "MAX_VALUE = 59048"

definition Tryte :: "int \<Rightarrow> tryte" where
  "Tryte v = v mod (MAX_VALUE + 1)"

definition from_int :: "int \<Rightarrow> tryte" where
  "from_int n = Tryte (n mod (MAX_VALUE + 1))"

text \<open>The loop of \<open>to_trits\<close>: \<open>k\<close> rounds of \<open>trits.append(Trit(n % 3)); n //= 3\<close>.\<close>

fun to_trits_loop :: "nat \<Rightarrow> int \<Rightarrow> trit list" where
  "to_trits_loop 0 n = []"
| "to_trits_loop (Suc k) n = Trit (n mod 3) # to_trits_loop k (n div 3)"

definition to_trits :: "tryte \<Rightarrow> trit list" where
  "to_trits t = to_trits_loop 10 t"

definition from_trits :: "trit list \<Rightarrow> tryte" where
  "from_trits trits =
     Tryte (sum_list (map (\<lambda>(i, t). trit_value t * 3 ^ i) (enumerate 0 (take 10 trits))))"

definition tryte_add :: "tryte \<Rightarrow> tryte \<Rightarrow> tryte" where
  "tryte_add x y = Tryte ((x + y) mod (MAX_VALUE + 1))"

section \<open>The crazy operation and the rotation\<close>

definition CRAZY_TABLE :: "trit list list" where
  "CRAZY_TABLE = [[T1, T0, T0], [T1, T0, T2], [T2, T2, T1]]"

definition crazy_trit :: "trit \<Rightarrow> trit \<Rightarrow> trit" where
  "crazy_trit x y = CRAZY_TABLE ! nat (trit_value x) ! nat (trit_value y)"

definition crazy :: "tryte \<Rightarrow> tryte \<Rightarrow> tryte" where
  "crazy x y = from_trits (map (\<lambda>(xt, yt). crazy_trit xt yt) (zip (to_trits x) (to_trits y)))"

text \<open>\<open>[trits[-1]] + trits[:-1]\<close> on the ten trits of \<open>t\<close>.\<close>

definition rotate_right :: "tryte \<Rightarrow> tryte" where
  "rotate_right t = (let trits = to_trits t in from_trits ([last trits] @ butlast trits))"

section \<open>Instruction decryption\<close>

text \<open>
  The result is one of the characters of \<open>"ji*p</vo"\<close>, as a one-character string, or
  the string \<open>"nop"\<close>.
\<close>

definition instructions :: string where
  "instructions = ''ji*p</vo''"

definition decrypt_instruction :: "int \<Rightarrow> int \<Rightarrow> error + string" where
  "decrypt_instruction code position =
     (if code < 33 \<or> code > 126 then Inl (InvalidCodePoint code)
      else let decrypted = (code - 33 + position) mod 94 in
        if decrypted < int (length instructions)
        then Inr [instructions ! nat (decrypted mod int (length instructions))]
        else Inr ''nop'')"

section \<open>Bounds-checked memory\<close>

definition SIZE :: int where
  "SIZE = 59049"

text \<open>\<open>SafeMemory._mem\<close>, a Python list of \<open>SIZE\<close> Trytes; \<open>[Tryte(0)] * SIZE\<close> at creation.\<close>

type_synonym safe_memory = "tryte list"

definition new_memory :: safe_memory where
  "new_memory = replicate (nat SIZE) (Tryte 0)"

definition mem_read :: "safe_memory \<Rightarrow> int \<Rightarrow> error + tryte" where
  "mem_read mem addr =
     (if 0 \<le> addr \<and> addr < SIZE then Inr (mem ! nat addr) else Inl (ReadOutOfBounds addr))"

definition mem_write :: "safe_memory \<Rightarrow> int \<Rightarrow> tryte \<Rightarrow> (error + unit) \<times> safe_memory" where
  "mem_write mem addr v =
     (if 0 \<le> addr \<and> addr < SIZE then (Inr (), mem[nat addr := v])
      else (Inl (WriteOutOfBounds addr), mem))"

definition read_unsafe :: "safe_memory \<Rightarrow> int \<Rightarrow> tryte" where
  "read_unsafe mem addr = mem ! nat (addr mod SIZE)"

definition write_unsafe :: "safe_memory \<Rightarrow> int \<Rightarrow> tryte \<Rightarrow> safe_memory" where
  "write_unsafe mem addr v = mem[nat (addr mod SIZE) := v]"

section \<open>The virtual machine\<close>

text \<open>
  \<open>VMState\<close>.  The registers \<open>a\<close>, \<open>c\<close>, \<open>d\<close> are the fields \<open>reg_a\<close>, \<open>reg_c\<close>, \<open>reg_d\<close>.
  \<open>output\<close> (here \<open>vm_output\<close>) is a list of one-character strings, each \<open>chr(n)\<close> with \<open>n < 256\<close>; it is the
  list of these characters, so that \<open>''.join(output)\<close> is the list itself.
\<close>

record vmstate =
  reg_a :: tryte
  reg_c :: tryte
  reg_d :: tryte
  memory :: safe_memory
  vm_output :: string
  halted :: bool
  cycles :: int

text \<open>\<open>SafeMalbolge.__init__\<close>.\<close>

definition new_vm :: vmstate where
  "new_vm = \<lparr> reg_a = Tryte 0, reg_c = Tryte 0, reg_d = Tryte 0, memory = new_memory,
              vm_output = [], halted = False, cycles = 0 \<rparr>"

text \<open>
  A Python string is a sequence of Unicode code points; a character is represented by its
  code point, so \<open>ord\<close> is the identity and a program text is an \<open>int list\<close>.
  \<open>isspace\<close> is \<open>str.isspace\<close> on one character: the code points that Unicode classifies
  as whitespace (general category Zs, or bidirectional class WS, B or S).
\<close>

definition isspace :: "int \<Rightarrow> bool" where
  "isspace ch \<longleftrightarrow>
     (9 \<le> ch \<and> ch \<le> 13) \<or> (28 \<le> ch \<and> ch \<le> 32) \<or> ch = 133 \<or> ch = 160 \<or> ch = 5760 \<or>
     (8192 \<le> ch \<and> ch \<le> 8202) \<or> ch = 8232 \<or> ch = 8233 \<or> ch = 8239 \<or> ch = 8287 \<or>
     ch = 12288"

text \<open>
  The first loop of \<open>load\<close>, over \<open>enumerate(code)\<close>: each character is checked and then
  written; the loop returns at the first invalid character, with the memory as written so far.
\<close>

fun load_chars :: "(nat \<times> int) list \<Rightarrow> safe_memory \<Rightarrow> (error + unit) \<times> safe_memory" where
  "load_chars [] mem = (Inr (), mem)"
| "load_chars ((i, char) # rest) mem =
     (let code_point = char in
      if code_point < 33 \<or> code_point > 126 then (Inl (InvalidCharacter i char), mem)
      else load_chars rest (write_unsafe mem (int i) (Tryte code_point)))"

text \<open>One round of the second loop of \<open>load\<close>.\<close>

definition fill_cell :: "nat \<Rightarrow> safe_memory \<Rightarrow> safe_memory" where
  "fill_cell i mem =
     (let prev1 = read_unsafe mem (int i - 1);
          prev2 = read_unsafe mem (int i - 2)
      in write_unsafe mem (int i) (crazy prev1 prev2))"

text \<open>
  \<open>load\<close> mutates the machine and returns a result: the model returns the result and the
  machine state after the call, also when the result is an error.
\<close>

definition load :: "vmstate \<Rightarrow> int list \<Rightarrow> (error + unit) \<times> vmstate" where
  "load s program =
     (let code = filter (\<lambda>ch. \<not> isspace ch) program in
      if int (length code) > SIZE then (Inl (ProgramTooLarge (length code)), s)
      else case load_chars (enumerate 0 code) (memory s) of
             (Inl e, mem) \<Rightarrow> (Inl e, s\<lparr>memory := mem\<rparr>)
           | (Inr _, mem) \<Rightarrow>
               (Inr (), s\<lparr>memory := fold fill_cell [length code..<nat SIZE] mem\<rparr>))"

text \<open>The end of \<open>step\<close>, below the \<open>match\<close>: increment the pointers and the cycle counter.\<close>

definition increment :: "vmstate \<Rightarrow> (error + bool) \<times> vmstate" where
  "increment s =
     (Inr True, s\<lparr>reg_c := tryte_add (reg_c s) (Tryte 1),
                  reg_d := tryte_add (reg_d s) (Tryte 1),
                  cycles := cycles s + 1\<rparr>)"

definition step :: "vmstate \<Rightarrow> (error + bool) \<times> vmstate" where
  "step s =
     (if halted s then (Inr False, s)
      else
        let c_val = reg_c s in
        case mem_read (memory s) c_val of
          Inl e \<Rightarrow> (Inl (FailedFetch e), s)
        | Inr instr \<Rightarrow>
           (case decrypt_instruction instr c_val of
              Inl e \<Rightarrow> (Inl (FailedDecrypt e), s)
            | Inr op \<Rightarrow>
               let d_val = reg_d s in
               if op = ''j'' then
                 (case mem_read (memory s) d_val of
                    Inr v \<Rightarrow> increment (s\<lparr>reg_d := v\<rparr>)
                  | Inl _ \<Rightarrow> increment s)
               else if op = ''i'' then
                 (case mem_read (memory s) d_val of
                    Inr v \<Rightarrow> (Inr True, s\<lparr>reg_c := v\<rparr>)
                  | Inl _ \<Rightarrow> increment s)
               else if op = ''*'' then
                 (case mem_read (memory s) d_val of
                    Inr v \<Rightarrow>
                      let rotated = rotate_right v in
                      increment (s\<lparr>memory := write_unsafe (memory s) d_val rotated,
                                    reg_a := rotated\<rparr>)
                  | Inl _ \<Rightarrow> increment s)
               else if op = ''p'' then
                 (case mem_read (memory s) d_val of
                    Inr v \<Rightarrow>
                      let result = crazy v (reg_a s) in
                      increment (s\<lparr>memory := write_unsafe (memory s) d_val result,
                                    reg_a := result\<rparr>)
                  | Inl _ \<Rightarrow> increment s)
               else if op = ''<'' then
                 (let char_code = reg_a s mod 256 in
                  increment (s\<lparr>vm_output := vm_output s @ [char_of char_code]\<rparr>))
               else if op = ''/'' then increment s
               else if op = ''v'' then (Inr False, s\<lparr>halted := True\<rparr>)
               else if op = ''o'' then increment s
               else increment s))"

text \<open>The statements of \<open>run\<close> after its loop.\<close>

definition run_result :: "vmstate \<Rightarrow> int \<Rightarrow> (error + string) \<times> vmstate" where
  "run_result s max_cycles =
     (if cycles s \<ge> max_cycles then (Inl (LimitExceeded max_cycles), s)
      else (Inr (vm_output s), s))"

text \<open>
  \<open>run\<close>: the \<open>while\<close> loop may not end, so the result is an option and \<open>None\<close> is a run
  that never returns.  A returned value is the result together with the machine state.
\<close>

partial_function (option) run :: "vmstate \<Rightarrow> int \<Rightarrow> ((error + string) \<times> vmstate) option" where
  "run s max_cycles =
     (if cycles s < max_cycles then
        (case step s of
           (Inl e, s') \<Rightarrow> Some (Inl (ExecutionError (cycles s') e), s')
         | (Inr continue, s') \<Rightarrow>
             if \<not> continue then Some (run_result s' max_cycles) else run s' max_cycles)
      else Some (run_result s max_cycles))"

text \<open>\<open>get_output\<close>.\<close>

definition get_output :: "vmstate \<Rightarrow> string" where
  "get_output s = vm_output s"

section \<open>Predicates and auxiliary functions of the verification\<close>

text \<open>The values a \<open>Tryte\<close> object can hold.\<close>

definition is_tryte :: "int \<Rightarrow> bool" where
  "is_tryte t \<longleftrightarrow> 0 \<le> t \<and> t \<le> MAX_VALUE"

text \<open>The code points that \<open>load\<close> accepts.\<close>

definition valid_char :: "int \<Rightarrow> bool" where
  "valid_char ch \<longleftrightarrow> 33 \<le> ch \<and> ch \<le> 126"

text \<open>The number denoted by a list of trits, least significant first.\<close>

fun trits_val :: "trit list \<Rightarrow> int" where
  "trits_val [] = 0"
| "trits_val (t # ts) = trit_value t + 3 * trits_val ts"

text \<open>The list operation inside \<open>rotate_right\<close>.\<close>

definition rot_list :: "'a list \<Rightarrow> 'a list" where
  "rot_list xs = [last xs] @ butlast xs"

text \<open>
  The invariant of the machine: registers and memory cells hold Tryte values, the memory has
  \<open>SIZE\<close> cells, the cycle counter is not negative.
\<close>

definition vm_ok :: "vmstate \<Rightarrow> bool" where
  "vm_ok s \<longleftrightarrow>
     is_tryte (reg_a s) \<and> is_tryte (reg_c s) \<and> is_tryte (reg_d s) \<and>
     length (memory s) = nat SIZE \<and> list_all is_tryte (memory s) \<and> 0 \<le> cycles s"

text \<open>
  The states a machine object can be in: it is created by \<open>__init__\<close>, and changed by
  \<open>load\<close> (with any text, whatever the result) and by \<open>step\<close>; \<open>run\<close> only calls \<open>step\<close>.
\<close>

inductive reachable :: "vmstate \<Rightarrow> bool" where
  reachable_new: "reachable new_vm"
| reachable_load: "reachable s \<Longrightarrow> reachable (snd (load s program))"
| reachable_step: "reachable s \<Longrightarrow> reachable (snd (step s))"

text \<open>
  The outcome of \<open>run\<close> that is a success with the empty output on a machine whose cycle
  counter is 0.
\<close>

definition success_empty_zero :: "((error + string) \<times> vmstate) option \<Rightarrow> bool" where
  "success_empty_zero r =
     (case r of None \<Rightarrow> False | Some (res, s') \<Rightarrow> res = Inr [] \<and> cycles s' = 0)"

text \<open>
  A program text of 35 characters: \<open>"\<close> (code point 34), then 33 times \<open>!\<close> (33), then
  \<open>^\<close> (94).  At address 0 the character \<open>"\<close> decrypts to \<open>i\<close>, and so does \<open>^\<close> at address 34.
\<close>

definition jump_loop_program :: "int list" where
  "jump_loop_program = 34 # replicate 33 33 @ [94]"

section \<open>Trytes and trits\<close>

lemma Tryte_range: "0 \<le> Tryte v \<and> Tryte v < 59049"
  by (simp add: Tryte_def MAX_VALUE_def)

lemma Tryte_id: "0 \<le> v \<Longrightarrow> v < 59049 \<Longrightarrow> Tryte v = v"
  by (simp add: Tryte_def MAX_VALUE_def)

lemma trit_value_range: "0 \<le> trit_value t \<and> trit_value t < 3"
  by (cases t) simp_all

lemma Trit_trit_value: "Trit (trit_value t) = t"
  by (cases t) (simp_all add: Trit_def)

lemma trit_value_Trit: "0 \<le> v \<Longrightarrow> v < 3 \<Longrightarrow> trit_value (Trit v) = v"
  by (auto simp: Trit_def)

lemma length_to_trits_loop: "length (to_trits_loop k n) = k"
  by (induction k arbitrary: n) simp_all

lemma sum_enumerate_trits:
  "sum_list (map (\<lambda>(i, t). trit_value t * 3 ^ i) (enumerate n ts)) = 3 ^ n * trits_val ts"
  by (induction ts arbitrary: n) (simp_all add: algebra_simps)

lemma trits_val_range: "0 \<le> trits_val ts \<and> trits_val ts < 3 ^ length ts"
proof (induction ts)
  case Nil
  show ?case by simp
next
  case (Cons t ts)
  from trit_value_range[of t] Cons show ?case by auto
qed

lemma trits_val_to_trits_loop: "trits_val (to_trits_loop k n) = n mod 3 ^ k"
proof (induction k arbitrary: n)
  case 0
  show ?case by simp
next
  case (Suc k)
  have "trit_value (Trit (n mod 3)) = n mod 3"
    by (rule trit_value_Trit) simp_all
  moreover have "n mod (3 * 3 ^ k) = 3 * (n div 3 mod 3 ^ k) + n mod 3"
    by (rule zmod_zmult2_eq) simp
  ultimately show ?case using Suc by simp
qed

lemma to_trits_loop_trits_val: "to_trits_loop (length ts) (trits_val ts) = ts"
proof (induction ts)
  case Nil
  show ?case by simp
next
  case (Cons t ts)
  have r: "0 \<le> trit_value t" "trit_value t < 3" using trit_value_range[of t] by simp_all
  have m: "(trit_value t + 3 * trits_val ts) mod 3 = trit_value t"
    using r by (simp add: mod_pos_pos_trivial)
  have d: "(trit_value t + 3 * trits_val ts) div 3 = trits_val ts"
    using r by simp
  show ?case using Cons by (simp only: trits_val.simps to_trits_loop.simps length_Cons m d Trit_trit_value)
qed

lemma from_trits_val: "length ts = 10 \<Longrightarrow> from_trits ts = trits_val ts"
proof -
  assume l: "length ts = 10"
  have "0 \<le> trits_val ts \<and> trits_val ts < 3 ^ 10" using trits_val_range[of ts] l by simp
  then show ?thesis
    using l by (simp add: from_trits_def sum_enumerate_trits Tryte_id)
qed

lemma length_to_trits: "length (to_trits t) = 10"
  by (simp add: to_trits_def length_to_trits_loop)

lemma to_trits_from_trits: "length ts = 10 \<Longrightarrow> to_trits (from_trits ts) = ts"
  using to_trits_loop_trits_val[of ts] by (simp add: from_trits_val to_trits_def)

lemma from_trits_to_trits: "is_tryte t \<Longrightarrow> from_trits (to_trits t) = t"
proof -
  assume "is_tryte t"
  then have "t mod 3 ^ 10 = t" by (simp add: is_tryte_def MAX_VALUE_def)
  then show ?thesis
    using trits_val_to_trits_loop[of 10 t]
    by (simp add: from_trits_val length_to_trits) (simp add: to_trits_def)
qed

lemma length_rot_list: "xs \<noteq> [] \<Longrightarrow> length (rot_list xs) = length xs"
  by (simp add: rot_list_def)

lemma rotate1_rot_list: "xs \<noteq> [] \<Longrightarrow> rotate1 (rot_list xs) = xs"
  by (simp add: rot_list_def)

lemma length_rot_list_pow: "xs \<noteq> [] \<Longrightarrow> length ((rot_list ^^ k) xs) = length xs"
proof (induction k)
  case 0
  show ?case by simp
next
  case (Suc k)
  then have "(rot_list ^^ k) xs \<noteq> []" by auto
  then show ?case using Suc by (simp add: length_rot_list)
qed

lemma rotate_rot_list_pow: "xs \<noteq> [] \<Longrightarrow> rotate k ((rot_list ^^ k) xs) = xs"
proof (induction k)
  case 0
  show ?case by simp
next
  case (Suc k)
  have ne: "(rot_list ^^ k) xs \<noteq> []"
    using length_rot_list_pow[OF Suc.prems, of k] Suc.prems by auto
  have "rotate (Suc k) ((rot_list ^^ Suc k) xs) = rotate k (rotate1 (rot_list ((rot_list ^^ k) xs)))"
    by (simp add: rotate_def funpow_swap1)
  also have "\<dots> = rotate k ((rot_list ^^ k) xs)"
    by (simp add: rotate1_rot_list[OF ne])
  finally show ?case using Suc by simp
qed

lemma rot_list_full_cycle: "(rot_list ^^ length xs) xs = xs"
proof (cases "xs = []")
  case True
  then show ?thesis by simp
next
  case False
  have "rotate (length xs) ((rot_list ^^ length xs) xs) = (rot_list ^^ length xs) xs"
    using length_rot_list_pow[OF False, of "length xs"] by (simp add: rotate_id)
  then show ?thesis using rotate_rot_list_pow[OF False, of "length xs"] by simp
qed

lemma rotate_right_rot_list: "rotate_right t = from_trits (rot_list (to_trits t))"
  by (simp add: rotate_right_def rot_list_def Let_def)

lemma to_trits_ne: "to_trits t \<noteq> []"
  using length_to_trits[of t] by auto

lemma rotate_right_pow:
  "is_tryte t \<Longrightarrow> (rotate_right ^^ k) t = from_trits ((rot_list ^^ k) (to_trits t))"
proof (induction k)
  case 0
  then show ?case by (simp add: from_trits_to_trits)
next
  case (Suc k)
  have l: "length ((rot_list ^^ k) (to_trits t)) = 10"
    using length_rot_list_pow[OF to_trits_ne, of k t] by (simp add: length_to_trits)
  show ?case
    using Suc by (simp add: rotate_right_rot_list to_trits_from_trits[OF l])
qed

text \<open>
  Claim C8.  For every Tryte \<open>t\<close>, applying \<open>rotate_right\<close> ten times in succession returns
  \<open>t\<close> itself; each application moves the most significant trit (the last of the ten, which
  are listed least significant first) to the least significant position and shifts the others up.
\<close>

theorem rotate_right_ten_times:
  "is_tryte t \<Longrightarrow>
     (rotate_right ^^ 10) t = t \<and>
     to_trits (rotate_right t) = last (to_trits t) # butlast (to_trits t)"
proof -
  assume t: "is_tryte t"
  have "(rot_list ^^ 10) (to_trits t) = to_trits t"
    using rot_list_full_cycle[of "to_trits t"] by (simp add: length_to_trits)
  then have a: "(rotate_right ^^ 10) t = t"
    using rotate_right_pow[OF t, of 10] by (simp add: from_trits_to_trits[OF t])
  have "length (rot_list (to_trits t)) = 10"
    by (simp add: length_rot_list[OF to_trits_ne] length_to_trits)
  then have b: "to_trits (rotate_right t) = last (to_trits t) # butlast (to_trits t)"
    by (simp add: rotate_right_rot_list to_trits_from_trits) (simp add: rot_list_def)
  from a b show ?thesis by simp
qed

theorem rotate_right_ten_times_witness:
  "is_tryte 5 \<and> (rotate_right ^^ 10) 5 = 5 \<and>
   to_trits (rotate_right 5) = last (to_trits 5) # butlast (to_trits 5)"
proof -
  have h: "is_tryte 5" by (simp add: is_tryte_def MAX_VALUE_def)
  show ?thesis using h rotate_right_ten_times[OF h] by simp
qed

section \<open>Memory\<close>

lemma nat_SIZE: "nat SIZE = 59049"
  by (simp add: SIZE_def)

lemma idx_mod_SIZE: "i < nat SIZE \<Longrightarrow> nat (int i mod SIZE) = i"
  by (simp add: SIZE_def)

lemma length_write_unsafe: "length (write_unsafe m addr v) = length m"
  by (simp add: write_unsafe_def)

lemma write_unsafe_nat: "i < nat SIZE \<Longrightarrow> write_unsafe m (int i) v = m[i := v]"
  by (simp add: write_unsafe_def idx_mod_SIZE)

lemma read_unsafe_nat: "i < nat SIZE \<Longrightarrow> read_unsafe m (int i) = m ! i"
  by (simp add: read_unsafe_def idx_mod_SIZE)

lemma read_unsafe_pred: "0 < i \<Longrightarrow> i < nat SIZE \<Longrightarrow> read_unsafe m (int i - 1) = m ! (i - 1)"
  using read_unsafe_nat[of "i - 1" m] by (simp add: of_nat_diff)

lemma read_unsafe_pred2: "1 < i \<Longrightarrow> i < nat SIZE \<Longrightarrow> read_unsafe m (int i - 2) = m ! (i - 2)"
  using read_unsafe_nat[of "i - 2" m] by (simp add: of_nat_diff)

lemma read_unsafe_minus1: "read_unsafe m (- 1) = m ! 59048"
  by (simp add: read_unsafe_def SIZE_def)

lemma read_unsafe_minus2: "read_unsafe m (- 2) = m ! 59047"
  by (simp add: read_unsafe_def SIZE_def)

subsection \<open>The first loop of load\<close>

lemma length_load_chars: "length (snd (load_chars xs mem)) = length mem"
  by (induction xs mem rule: load_chars.induct) (simp_all add: Let_def length_write_unsafe)

lemma fst_load_chars:
  "fst (load_chars (enumerate n code) mem) =
     (if list_all valid_char code then Inr ()
      else Inl (InvalidCharacter (n + length (takeWhile valid_char code))
                                 (code ! length (takeWhile valid_char code))))"
  by (induction code arbitrary: n mem) (auto simp: Let_def valid_char_def)

lemma snd_load_chars:
  "n + length code \<le> nat SIZE \<Longrightarrow> length mem = nat SIZE \<Longrightarrow>
   snd (load_chars (enumerate n code) mem) ! j =
     (if n \<le> j \<and> j < n + length (takeWhile valid_char code)
      then Tryte (code ! (j - n)) else mem ! j)"
proof (induction code arbitrary: n mem)
  case Nil
  show ?case by simp
next
  case (Cons ch code)
  show ?case
  proof (cases "valid_char ch")
    case False
    then show ?thesis by (auto simp: valid_char_def)
  next
    case True
    have n: "n < nat SIZE" using Cons.prems by simp
    have "Suc n + length code \<le> nat SIZE" using Cons.prems by simp
    note IH = Cons.IH[OF this, of "mem[n := Tryte ch]"]
    have lm: "n < length mem" using n Cons.prems by simp
    have "load_chars (enumerate n (ch # code)) mem
            = load_chars (enumerate (Suc n) code) (mem[n := Tryte ch])"
      using True by (simp add: valid_char_def write_unsafe_nat[OF n])
    then show ?thesis
      using True IH lm Cons.prems(2) by (auto simp: nth_list_update nth_Cons')
  qed
qed

subsection \<open>The second loop of load\<close>

lemma length_fill_cell: "length (fill_cell i m) = length m"
  by (simp add: fill_cell_def Let_def length_write_unsafe)

lemma length_fold_fill: "length (fold fill_cell xs m) = length m"
  by (induction xs arbitrary: m) (simp_all add: length_fill_cell)

lemma fold_fill_Suc:
  "L \<le> n \<Longrightarrow> fold fill_cell [L..<Suc n] m = fill_cell n (fold fill_cell [L..<n] m)"
  by simp

lemma fill_cell_nth:
  "n < nat SIZE \<Longrightarrow> length m = nat SIZE \<Longrightarrow>
   fill_cell n m ! j =
     (if j = n then crazy (read_unsafe m (int n - 1)) (read_unsafe m (int n - 2)) else m ! j)"
  by (simp add: fill_cell_def Let_def write_unsafe_nat)

lemma fold_fill_unchanged:
  "n \<le> nat SIZE \<Longrightarrow> length m = nat SIZE \<Longrightarrow> j < L \<or> n \<le> j \<Longrightarrow>
   fold fill_cell [L..<n] m ! j = m ! j"
proof (induction n)
  case 0
  show ?case by simp
next
  case (Suc n)
  show ?case
  proof (cases "L \<le> n")
    case True
    have "fill_cell n (fold fill_cell [L..<n] m) ! j = fold fill_cell [L..<n] m ! j"
      using Suc.prems True by (subst fill_cell_nth) (auto simp: length_fold_fill)
    then show ?thesis using Suc True by auto
  next
    case False
    then show ?thesis by simp
  qed
qed

lemma fold_fill_stable:
  "n \<le> nat SIZE \<Longrightarrow> length m = nat SIZE \<Longrightarrow> j < n' \<Longrightarrow> n' \<le> n \<Longrightarrow>
   fold fill_cell [L..<n] m ! j = fold fill_cell [L..<n'] m ! j"
proof (induction n)
  case 0
  then show ?case by simp
next
  case (Suc n)
  show ?case
  proof (cases "n' = Suc n")
    case True
    then show ?thesis by simp
  next
    case False
    then have le: "n' \<le> n" using Suc.prems by simp
    show ?thesis
    proof (cases "L \<le> n")
      case True
      have "fill_cell n (fold fill_cell [L..<n] m) ! j = fold fill_cell [L..<n] m ! j"
        using Suc.prems le by (subst fill_cell_nth) (auto simp: length_fold_fill)
      then show ?thesis using Suc le True by auto
    next
      case False
      then have "[L..<Suc n] = []" "[L..<n'] = []" using le by simp_all
      then show ?thesis by (simp only: fold_Nil id_apply)
    qed
  qed
qed

lemma fold_fill_cell_at:
  assumes "L \<le> i" "i < nat SIZE" "length m = nat SIZE"
  shows "fold fill_cell [L..<nat SIZE] m ! i =
           crazy (read_unsafe (fold fill_cell [L..<i] m) (int i - 1))
                 (read_unsafe (fold fill_cell [L..<i] m) (int i - 2))"
proof -
  have "fold fill_cell [L..<nat SIZE] m ! i = fold fill_cell [L..<Suc i] m ! i"
    using assms by (intro fold_fill_stable) auto
  also have "\<dots> = fill_cell i (fold fill_cell [L..<i] m) ! i"
    using assms by simp
  also have "\<dots> = crazy (read_unsafe (fold fill_cell [L..<i] m) (int i - 1))
                 (read_unsafe (fold fill_cell [L..<i] m) (int i - 2))"
    using assms by (subst fill_cell_nth) (auto simp: length_fold_fill)
  finally show ?thesis .
qed

lemma fold_fill_recurrence:
  assumes "L \<le> i" "2 \<le> i" "i < nat SIZE" "length m = nat SIZE"
  shows "fold fill_cell [L..<nat SIZE] m ! i =
           crazy (fold fill_cell [L..<nat SIZE] m ! (i - 1))
                 (fold fill_cell [L..<nat SIZE] m ! (i - 2))"
proof -
  have a: "read_unsafe (fold fill_cell [L..<i] m) (int i - 1) = fold fill_cell [L..<i] m ! (i - 1)"
    using assms by (intro read_unsafe_pred) auto
  have b: "read_unsafe (fold fill_cell [L..<i] m) (int i - 2) = fold fill_cell [L..<i] m ! (i - 2)"
    using assms by (intro read_unsafe_pred2) auto
  have c: "fold fill_cell [L..<nat SIZE] m ! (i - 1) = fold fill_cell [L..<i] m ! (i - 1)"
    using assms by (intro fold_fill_stable) auto
  have d: "fold fill_cell [L..<nat SIZE] m ! (i - 2) = fold fill_cell [L..<i] m ! (i - 2)"
    using assms by (intro fold_fill_stable) auto
  show ?thesis
    using fold_fill_cell_at[OF assms(1,3,4)] by (simp only: a b c d)
qed

lemma fold_fill_cell0:
  assumes "length m = nat SIZE"
  shows "fold fill_cell [0..<nat SIZE] m ! 0 = crazy (m ! 59048) (m ! 59047)"
  using fold_fill_cell_at[of 0 0 m] assms
  by (simp add: read_unsafe_minus1 read_unsafe_minus2 nat_SIZE)

lemma fold_fill_cell1:
  assumes "L \<le> 1" "length m = nat SIZE"
  shows "fold fill_cell [L..<nat SIZE] m ! 1 =
           crazy (fold fill_cell [L..<nat SIZE] m ! 0) (m ! 59048)"
proof -
  have a: "read_unsafe (fold fill_cell [L..<1] m) (int 1 - 1) = fold fill_cell [L..<1] m ! 0"
    using read_unsafe_nat[of 0] by (simp add: nat_SIZE)
  have b: "read_unsafe (fold fill_cell [L..<1] m) (int 1 - 2) = fold fill_cell [L..<1] m ! 59048"
    by (simp add: read_unsafe_minus1)
  have c: "fold fill_cell [L..<1] m ! 59048 = m ! 59048"
    using assms by (intro fold_fill_unchanged) (simp_all add: nat_SIZE)
  have d: "fold fill_cell [L..<nat SIZE] m ! 0 = fold fill_cell [L..<1] m ! 0"
    using assms by (intro fold_fill_stable) (simp_all add: nat_SIZE)
  show ?thesis
    using fold_fill_cell_at[of L 1 m] assms by (simp only: a b c d) (simp add: nat_SIZE)
qed

section \<open>Instruction decryption\<close>

lemma instructions_table:
  fixes d :: int
  assumes "0 \<le> d" "d < 8"
  shows "[instructions ! nat (d mod 8)] =
          (if d = 0 then ''j'' else if d = 1 then ''i'' else if d = 2 then ''*''
           else if d = 3 then ''p'' else if d = 4 then ''<'' else if d = 5 then ''/''
           else if d = 6 then ''v'' else ''o'')"
proof -
  from assms have "d = 0 \<or> d = 1 \<or> d = 2 \<or> d = 3 \<or> d = 4 \<or> d = 5 \<or> d = 6 \<or> d = 7"
    by arith
  then show ?thesis
    by (elim disjE) (simp_all add: instructions_def)
qed

lemma decrypt_instruction_invalid:
  "code < 33 \<or> code > 126 \<Longrightarrow> decrypt_instruction code position = Inl (InvalidCodePoint code)"
  by (simp add: decrypt_instruction_def)

lemma decrypt_instruction_valid:
  assumes "33 \<le> code" "code \<le> 126"
  shows "decrypt_instruction code position =
          (let d = (code - 33 + position) mod 94 in
           Inr (if d = 0 then ''j'' else if d = 1 then ''i'' else if d = 2 then ''*''
                else if d = 3 then ''p'' else if d = 4 then ''<'' else if d = 5 then ''/''
                else if d = 6 then ''v'' else if d = 7 then ''o'' else ''nop''))"
proof -
  define d where "d = (code - 33 + position) mod 94"
  have nonneg: "0 \<le> d" by (simp add: d_def)
  have len: "int (length instructions) = 8" by (simp add: instructions_def)
  have v: "\<not> (code < 33 \<or> code > 126)" using assms by simp
  show ?thesis
  proof (cases "d < 8")
    case True
    have "decrypt_instruction code position = Inr [instructions ! nat (d mod 8)]"
      using v True by (simp add: decrypt_instruction_def Let_def len d_def)
    also have "[instructions ! nat (d mod 8)] =
          (if d = 0 then ''j'' else if d = 1 then ''i'' else if d = 2 then ''*''
           else if d = 3 then ''p'' else if d = 4 then ''<'' else if d = 5 then ''/''
           else if d = 6 then ''v'' else ''o'')"
      by (rule instructions_table[OF nonneg True])
    finally show ?thesis using True nonneg unfolding Let_def d_def[symmetric] by auto
  next
    case False
    have "decrypt_instruction code position = Inr ''nop''"
      using v False by (simp add: decrypt_instruction_def Let_def len d_def)
    then show ?thesis using False unfolding Let_def d_def[symmetric] by auto
  qed
qed

text \<open>
  Claim C5.  For all integers \<open>code\<close> and \<open>position\<close>, \<open>decrypt_instruction\<close> returns a failure
  if and only if \<open>code\<close> is outside [33,126].  For \<open>code\<close> in [33,126], with
  \<open>d = (code - 33 + position) mod 94\<close>, it returns the \<open>d\<close>-th symbol of the table
  \<open>j i * p < / v o\<close> (jump via data, jump code via data, rotate, crazy, output, input, halt,
  no-op) when \<open>d < 8\<close>, and the no-op result \<open>nop\<close>, not a failure, when \<open>d \<ge> 8\<close>.
\<close>

theorem decrypt_instruction_contract:
  "(isl (decrypt_instruction code position) \<longleftrightarrow> code < 33 \<or> code > 126) \<and>
   (33 \<le> code \<and> code \<le> 126 \<longrightarrow>
      decrypt_instruction code position =
        (let d = (code - 33 + position) mod 94 in
         Inr (if d = 0 then ''j'' else if d = 1 then ''i'' else if d = 2 then ''*''
              else if d = 3 then ''p'' else if d = 4 then ''<'' else if d = 5 then ''/''
              else if d = 6 then ''v'' else if d = 7 then ''o'' else ''nop'')))"
proof (cases "code < 33 \<or> code > 126")
  case True
  then show ?thesis using decrypt_instruction_invalid[OF True, of position] by auto
next
  case False
  then have v: "33 \<le> code" "code \<le> 126" by simp_all
  show ?thesis
    using v decrypt_instruction_valid[OF v, of position] by (simp add: Let_def)
qed

theorem decrypt_instruction_contract_witness:
  "\<not> isl (decrypt_instruction 39 0) \<and> decrypt_instruction 39 0 = Inr ''v'' \<and>
   decrypt_instruction 40 (-1) = Inr ''v'' \<and> decrypt_instruction 50 0 = Inr ''nop''"
  using decrypt_instruction_contract[of 39 0] decrypt_instruction_contract[of 40 "-1"]
    decrypt_instruction_contract[of 50 0]
  by simp

section \<open>Values of the machine\<close>

lemma is_tryte_Tryte: "is_tryte (Tryte v)"
  by (simp add: is_tryte_def Tryte_def MAX_VALUE_def)

lemma Tryte_is_tryte: "is_tryte v \<Longrightarrow> Tryte v = v"
  by (simp add: is_tryte_def Tryte_def MAX_VALUE_def)

lemma Tryte_valid_char: "valid_char ch \<Longrightarrow> Tryte ch = ch"
  by (simp add: valid_char_def Tryte_def MAX_VALUE_def)

lemma is_tryte_from_trits: "is_tryte (from_trits ts)"
  by (simp add: from_trits_def is_tryte_Tryte)

lemma is_tryte_crazy: "is_tryte (crazy x y)"
  by (simp add: crazy_def is_tryte_from_trits)

lemma is_tryte_rotate_right: "is_tryte (rotate_right t)"
  by (simp add: rotate_right_def Let_def is_tryte_from_trits)

lemma is_tryte_tryte_add: "is_tryte (tryte_add x y)"
  by (simp add: tryte_add_def is_tryte_Tryte)

lemma is_tryte_addr: "is_tryte t \<Longrightarrow> 0 \<le> t \<and> t < SIZE"
  by (simp add: is_tryte_def MAX_VALUE_def SIZE_def)

lemma not_isspace_valid: "valid_char ch \<Longrightarrow> \<not> isspace ch"
  by (simp add: valid_char_def isspace_def)

lemma crazy_values:
  "crazy 0 0 = 29524" "crazy 29524 0 = 29524" "crazy 29524 29524 = 0" "crazy 0 29524 = 0"
  by code_simp+

lemma tryte_add_0_1: "tryte_add 0 (Tryte 1) = 1"
  by (simp add: tryte_add_def Tryte_def MAX_VALUE_def)

subsection \<open>Memory cells stay Trytes\<close>

lemma list_all_update: "list_all P m \<Longrightarrow> P v \<Longrightarrow> list_all P (m[i := v])"
  using set_update_subset_insert[of m i v] by (auto simp: list_all_iff)

lemma list_all_write_unsafe:
  "list_all is_tryte m \<Longrightarrow> is_tryte v \<Longrightarrow> list_all is_tryte (write_unsafe m addr v)"
  by (simp add: write_unsafe_def list_all_update)

lemma list_all_load_chars:
  "list_all is_tryte mem \<Longrightarrow> list_all is_tryte (snd (load_chars xs mem))"
  by (induction xs mem rule: load_chars.induct)
     (simp_all add: Let_def list_all_write_unsafe is_tryte_Tryte)

lemma list_all_fill_cell: "list_all is_tryte m \<Longrightarrow> list_all is_tryte (fill_cell i m)"
  by (simp add: fill_cell_def Let_def list_all_write_unsafe is_tryte_crazy)

lemma list_all_fold_fill: "list_all is_tryte m \<Longrightarrow> list_all is_tryte (fold fill_cell xs m)"
  by (induction xs arbitrary: m) (simp_all add: list_all_fill_cell)

lemma length_new_memory: "length new_memory = nat SIZE"
  by (simp add: new_memory_def)

lemma new_memory_nth: "i < nat SIZE \<Longrightarrow> new_memory ! i = 0"
  by (simp add: new_memory_def Tryte_def MAX_VALUE_def)

lemma list_all_new_memory: "list_all is_tryte new_memory"
  by (simp add: new_memory_def list_all_iff is_tryte_Tryte)

lemma new_vm_fields:
  "reg_a new_vm = 0" "reg_c new_vm = 0" "reg_d new_vm = 0" "vm_output new_vm = []"
  "\<not> halted new_vm" "cycles new_vm = 0" "memory new_vm = new_memory"
  by (simp_all add: new_vm_def Tryte_def MAX_VALUE_def)

lemma mem_read_cell: "i < nat SIZE \<Longrightarrow> mem_read m (int i) = Inr (m ! i)"
  by (simp add: mem_read_def)

lemma mem_read_0: "mem_read m 0 = Inr (m ! 0)"
  by (simp add: mem_read_def SIZE_def)

lemma mem_read_tryte: "is_tryte t \<Longrightarrow> mem_read m t = Inr (m ! nat t)"
  using is_tryte_addr[of t] by (simp add: mem_read_def)

lemma memory_cell_is_tryte:
  "list_all is_tryte m \<Longrightarrow> length m = nat SIZE \<Longrightarrow> is_tryte t \<Longrightarrow> is_tryte (m ! nat t)"
  using is_tryte_addr[of t] by (simp add: list_all_length)

section \<open>load\<close>

lemma load_too_large:
  "int (length (filter (\<lambda>ch. \<not> isspace ch) program)) > SIZE \<Longrightarrow>
   load s program = (Inl (ProgramTooLarge (length (filter (\<lambda>ch. \<not> isspace ch) program))), s)"
  by (simp add: load_def Let_def)

lemma load_fits:
  assumes "code = filter (\<lambda>ch. \<not> isspace ch) program" "int (length code) \<le> SIZE"
  shows "load s program =
    (if list_all valid_char code
     then (Inr (), s\<lparr>memory := fold fill_cell [length code..<nat SIZE]
                                  (snd (load_chars (enumerate 0 code) (memory s)))\<rparr>)
     else (Inl (InvalidCharacter (length (takeWhile valid_char code))
                                 (code ! length (takeWhile valid_char code))),
           s\<lparr>memory := snd (load_chars (enumerate 0 code) (memory s))\<rparr>))"
proof -
  obtain r mem where lc: "load_chars (enumerate 0 code) (memory s) = (r, mem)"
    by (cases "load_chars (enumerate 0 code) (memory s)")
  have r: "r = (if list_all valid_char code then Inr ()
      else Inl (InvalidCharacter (0 + length (takeWhile valid_char code))
                                 (code ! length (takeWhile valid_char code))))"
    using fst_load_chars[of 0 code "memory s"] lc by simp
  have l: "\<not> int (length code) > SIZE" using assms(2) by simp
  show ?thesis
    using assms(1) l lc r by (simp add: load_def Let_def)
qed

lemma load_frame:
  "reg_a (snd (load s program)) = reg_a s \<and> reg_c (snd (load s program)) = reg_c s \<and>
   reg_d (snd (load s program)) = reg_d s \<and> vm_output (snd (load s program)) = vm_output s \<and>
   halted (snd (load s program)) = halted s \<and> cycles (snd (load s program)) = cycles s"
  by (simp add: load_def Let_def split: prod.splits sum.splits)

lemma load_memory_invariant:
  "length (memory (snd (load s program))) = length (memory s) \<and>
   (list_all is_tryte (memory s) \<longrightarrow> list_all is_tryte (memory (snd (load s program))))"
proof -
  obtain r mem where lc:
    "load_chars (enumerate 0 (filter (\<lambda>ch. \<not> isspace ch) program)) (memory s) = (r, mem)"
    by (cases "load_chars (enumerate 0 (filter (\<lambda>ch. \<not> isspace ch) program)) (memory s)")
  have a: "length mem = length (memory s)"
    using length_load_chars[of "enumerate 0 (filter (\<lambda>ch. \<not> isspace ch) program)" "memory s"] lc
    by simp
  have b: "list_all is_tryte (memory s) \<Longrightarrow> list_all is_tryte mem"
    using list_all_load_chars[of "memory s" "enumerate 0 (filter (\<lambda>ch. \<not> isspace ch) program)"] lc
    by simp
  show ?thesis
    using a b lc
    by (cases r) (auto simp: load_def Let_def length_fold_fill list_all_fold_fill)
qed

lemma vm_ok_new_vm: "vm_ok new_vm"
  by (simp add: vm_ok_def new_vm_def is_tryte_Tryte length_new_memory list_all_new_memory)

lemma vm_ok_load: "vm_ok s \<Longrightarrow> vm_ok (snd (load s program))"
  using load_frame[of s program] load_memory_invariant[of s program]
  by (simp add: vm_ok_def)

lemma load_ok:
  assumes "code = filter (\<lambda>ch. \<not> isspace ch) program" "int (length code) \<le> SIZE"
    "list_all valid_char code"
  shows "load s program =
     (Inr (), s\<lparr>memory := fold fill_cell [length code..<nat SIZE]
                                  (snd (load_chars (enumerate 0 code) (memory s)))\<rparr>)"
  using load_fits[OF assms(1,2)] assms(3) by simp

lemma takeWhile_all: "list_all P xs \<Longrightarrow> takeWhile P xs = xs"
  by (induction xs) simp_all

lemma takeWhile_short: "\<not> list_all P xs \<Longrightarrow> length (takeWhile P xs) < length xs"
  by (induction xs) auto

lemma filter_valid: "list_all valid_char p \<Longrightarrow> filter (\<lambda>ch. \<not> isspace ch) p = p"
  by (simp add: list_all_iff not_isspace_valid)

lemma load_program_cell:
  assumes "code = filter (\<lambda>ch. \<not> isspace ch) program" "int (length code) \<le> SIZE"
    "list_all valid_char code" "length (memory s) = nat SIZE" "i < length code"
  shows "memory (snd (load s program)) ! i = Tryte (code ! i)"
proof -
  have le: "length code \<le> nat SIZE" using assms(2) by simp
  have "memory (snd (load s program)) ! i =
          fold fill_cell [length code..<nat SIZE]
             (snd (load_chars (enumerate 0 code) (memory s))) ! i"
    by (simp add: load_ok[OF assms(1,2,3)])
  also have "\<dots> = snd (load_chars (enumerate 0 code) (memory s)) ! i"
    using assms(4,5) by (intro fold_fill_unchanged) (simp_all add: length_load_chars)
  also have "\<dots> = Tryte (code ! i)"
    using snd_load_chars[of 0 code "memory s" i] le assms(3,4,5)
    by (simp add: takeWhile_all)
  finally show ?thesis .
qed

lemma load_valid:
  assumes "list_all valid_char p" "int (length p) \<le> SIZE"
  shows "fst (load s p) = Inr ()"
    and "length (memory s) = nat SIZE \<Longrightarrow> i < length p \<Longrightarrow> memory (snd (load s p)) ! i = p ! i"
proof -
  have f: "p = filter (\<lambda>ch. \<not> isspace ch) p" using assms(1) by (simp add: filter_valid)
  show "fst (load s p) = Inr ()" by (simp add: load_ok[OF f assms(2,1)])
  assume l: "length (memory s) = nat SIZE" and i: "i < length p"
  have "valid_char (p ! i)" using assms(1) i by (simp add: list_all_length)
  then show "memory (snd (load s p)) ! i = p ! i"
    using load_program_cell[OF f assms(2,1) l i] by (simp add: Tryte_valid_char)
qed

lemma load_new_vm_fields:
  "reg_a (snd (load new_vm p)) = 0" "reg_c (snd (load new_vm p)) = 0"
  "reg_d (snd (load new_vm p)) = 0" "vm_output (snd (load new_vm p)) = []"
  "\<not> halted (snd (load new_vm p))" "cycles (snd (load new_vm p)) = 0"
  "length (memory (snd (load new_vm p))) = nat SIZE"
  using load_frame[of new_vm p] load_memory_invariant[of new_vm p]
  by (simp_all add: new_vm_fields length_new_memory)

lemma load_chars_memory:
  assumes "length code \<le> nat SIZE" "length mem = nat SIZE"
  shows "snd (load_chars (enumerate 0 code) mem) =
           map Tryte (take (length (takeWhile valid_char code)) code) @
           drop (length (takeWhile valid_char code)) mem"
proof (rule nth_equalityI)
  let ?k = "length (takeWhile valid_char code)"
  have k: "?k \<le> length code" by (rule length_takeWhile_le)
  show "length (snd (load_chars (enumerate 0 code) mem)) =
        length (map Tryte (take ?k code) @ drop ?k mem)"
    using k assms by (simp add: length_load_chars)
  fix j assume "j < length (snd (load_chars (enumerate 0 code) mem))"
  then have j: "j < length mem" by (simp add: length_load_chars)
  show "snd (load_chars (enumerate 0 code) mem) ! j = (map Tryte (take ?k code) @ drop ?k mem) ! j"
    using snd_load_chars[of 0 code mem j] assms k j
    by (simp add: nth_append)
qed

lemma bad_program_load:
  "load new_vm [65, 127] =
     (Inl (InvalidCharacter 1 127), new_vm\<lparr>memory := new_memory[0 := 65]\<rparr>)"
proof -
  have a: "[65, 127] = filter (\<lambda>ch. \<not> isspace ch) [65, 127]" by (simp add: isspace_def)
  have b: "int (length [65, 127 :: int]) \<le> SIZE" by (simp add: SIZE_def)
  have z: "(0::nat) < nat SIZE" by (simp add: SIZE_def)
  have c: "load_chars (enumerate 0 [65, 127]) new_memory =
             (Inl (InvalidCharacter 1 127), new_memory[0 := 65])"
    using write_unsafe_nat[OF z, of new_memory "Tryte 65"]
    by (simp add: Let_def Tryte_def MAX_VALUE_def)
  show ?thesis
    using load_fits[OF a b, of new_vm] c
    by (simp add: valid_char_def new_vm_fields)
qed

lemma large_program_facts:
  "filter (\<lambda>ch. \<not> isspace ch) (replicate 59050 65) = replicate 59050 65"
  "SIZE < int (length (replicate 59050 (65::int)))"
proof -
  have "\<not> isspace 65" by (simp add: isspace_def)
  then show "filter (\<lambda>ch. \<not> isspace ch) (replicate 59050 65) = replicate 59050 65"
    by (simp only: filter_replicate not_False_eq_True if_True)
  show "SIZE < int (length (replicate 59050 (65::int)))"
    by (simp only: length_replicate SIZE_def)
qed

lemma large_program_load:
  "load new_vm (replicate 59050 65) = (Inl (ProgramTooLarge 59050), new_vm)"
  using load_too_large[of "replicate 59050 65" new_vm] large_program_facts(2)
  by (simp only: large_program_facts(1) length_replicate)

text \<open>
  Claim C2, as the code has it.  \<open>load\<close> checks and writes in one pass, so a failure is atomic
  only for a text that is too large.  For a machine whose memory has \<open>SIZE\<close> cells (every
  reachable one, \<open>reachable_memory_length\<close>): if \<open>load\<close>
  returns the program-too-large failure, the state after the call is the state before it.  If
  it returns the invalid-character failure, the position \<open>i\<close> reported is that of the first
  invalid character of the text without whitespace, the registers, the output, the halted flag
  and the cycle counter are unchanged, the memory cells from \<open>i\<close> on are unchanged, and the
  cells below \<open>i\<close> hold the code points of the characters before the invalid one.
\<close>

theorem load_failure_effect:
  assumes "length (memory s) = nat SIZE"
    and "code = filter (\<lambda>ch. \<not> isspace ch) program"
    and "fst (load s program) = Inl e"
  shows "(SIZE < int (length code) \<longrightarrow>
            e = ProgramTooLarge (length code) \<and> snd (load s program) = s) \<and>
         (int (length code) \<le> SIZE \<longrightarrow>
            (let i = length (takeWhile valid_char code) in
               i < length code \<and> \<not> valid_char (code ! i) \<and>
               e = InvalidCharacter i (code ! i) \<and>
               snd (load s program) =
                 s\<lparr>memory := map Tryte (take i code) @ drop i (memory s)\<rparr>))"
proof (cases "SIZE < int (length code)")
  case True
  then show ?thesis
    using assms(3) load_too_large[of program s] by (simp add: assms(2))
next
  case False
  then have le: "int (length code) \<le> SIZE" by simp
  then have len: "length code \<le> nat SIZE" by simp
  let ?i = "length (takeWhile valid_char code)"
  note ld = load_fits[OF assms(2) le, of s]
  have nv: "\<not> list_all valid_char code"
    using assms(3) ld by (auto split: if_splits)
  then have i: "?i < length code"
    by (rule takeWhile_short)
  have bad: "\<not> valid_char (code ! ?i)"
    using i by (rule nth_length_takeWhile)
  have e: "e = InvalidCharacter ?i (code ! ?i)"
    using assms(3) ld nv by simp
  have st: "snd (load s program) = s\<lparr>memory := map Tryte (take ?i code) @ drop ?i (memory s)\<rparr>"
    using ld nv by (simp add: load_chars_memory[OF len assms(1)])
  show ?thesis using le i bad e st by (simp add: Let_def)
qed

theorem load_failure_effect_witness:
  "length (memory new_vm) = nat SIZE \<and>
   fst (load new_vm [65, 127]) = Inl (InvalidCharacter 1 127) \<and>
   snd (load new_vm [65, 127]) =
     new_vm\<lparr>memory := map Tryte (take 1 [65, 127]) @ drop 1 (memory new_vm)\<rparr> \<and>
   fst (load new_vm (replicate 59050 65)) = Inl (ProgramTooLarge 59050) \<and>
   snd (load new_vm (replicate 59050 65)) = new_vm"
proof -
  have h1: "length (memory new_vm) = nat SIZE"
    by (simp add: new_vm_fields length_new_memory)
  have h2: "[65, 127] = filter (\<lambda>ch. \<not> isspace ch) [65, 127]" by (simp add: isspace_def)
  have h3: "fst (load new_vm [65, 127]) = Inl (InvalidCharacter 1 127)"
    by (simp add: bad_program_load)
  have le: "int (length [65, 127 :: int]) \<le> SIZE" by (simp add: SIZE_def)
  have a: "snd (load new_vm [65, 127]) =
     new_vm\<lparr>memory := map Tryte (take 1 [65, 127]) @ drop 1 (memory new_vm)\<rparr>"
    using le load_failure_effect[OF h1 h2 h3]
    by (simp add: valid_char_def Let_def)
  have g2: "replicate 59050 65 = filter (\<lambda>ch. \<not> isspace ch) (replicate 59050 65)"
    by (simp only: large_program_facts(1))
  have g3: "fst (load new_vm (replicate 59050 65)) = Inl (ProgramTooLarge 59050)"
    by (simp only: large_program_load fst_conv)
  have b: "snd (load new_vm (replicate 59050 65)) = new_vm"
    using load_failure_effect[OF h1 g2 g3] large_program_facts(2) by blast
  from h1 h3 a g3 b show ?thesis by blast
qed

text \<open>
  Claim C2 as stated fails: loading \<open>A\<close> followed by the character with code point 127 on a
  new machine returns the invalid-character failure for position 1, and cell 0, which was 0,
  holds 65 afterwards.
\<close>

theorem load_not_atomic_counterexample:
  "fst (load new_vm [65, 127]) = Inl (InvalidCharacter 1 127) \<and>
   memory (snd (load new_vm [65, 127])) ! 0 = 65 \<and> memory new_vm ! 0 = 0 \<and>
   snd (load new_vm [65, 127]) \<noteq> new_vm"
proof -
  have z: "(0::nat) < nat SIZE" by (simp add: SIZE_def)
  have a: "memory (snd (load new_vm [65, 127])) ! 0 = 65"
    using z by (simp add: bad_program_load length_new_memory)
  have b: "memory new_vm ! 0 = 0"
    using z by (simp add: new_vm_fields new_memory_nth)
  from a b have "snd (load new_vm [65, 127]) \<noteq> new_vm" by auto
  then show ?thesis using a b by (simp add: bad_program_load)
qed

text \<open>
  Claim C3, as the code has it.  \<open>load\<close> writes the memory only: after \<open>load\<close> returns success
  the accumulator, the code pointer, the data pointer, the output, the halted flag and the
  cycle counter are what they were before the call.  On a machine just created they are
  therefore the zero Tryte three times, the empty output, a cleared flag and zero.
\<close>

theorem load_keeps_registers:
  assumes "fst (load s program) = Inr ()"
  shows "reg_a (snd (load s program)) = reg_a s \<and> reg_c (snd (load s program)) = reg_c s \<and>
     reg_d (snd (load s program)) = reg_d s \<and> vm_output (snd (load s program)) = vm_output s \<and>
     halted (snd (load s program)) = halted s \<and> cycles (snd (load s program)) = cycles s \<and>
     (s = new_vm \<longrightarrow>
        reg_a (snd (load s program)) = Tryte 0 \<and> reg_c (snd (load s program)) = Tryte 0 \<and>
        reg_d (snd (load s program)) = Tryte 0 \<and> vm_output (snd (load s program)) = [] \<and>
        \<not> halted (snd (load s program)) \<and> cycles (snd (load s program)) = 0)"
  using load_frame[of s program] by (auto simp: new_vm_def)

theorem load_keeps_registers_witness:
  "fst (load new_vm [39]) = Inr () \<and>
   reg_a (snd (load new_vm [39])) = Tryte 0 \<and> reg_c (snd (load new_vm [39])) = Tryte 0 \<and>
   reg_d (snd (load new_vm [39])) = Tryte 0 \<and> vm_output (snd (load new_vm [39])) = [] \<and>
   \<not> halted (snd (load new_vm [39])) \<and> cycles (snd (load new_vm [39])) = 0"
proof -
  have v: "list_all valid_char [39]" by (simp add: valid_char_def)
  have l: "int (length [39 :: int]) \<le> SIZE" by (simp add: SIZE_def)
  have h: "fst (load new_vm [39]) = Inr ()" by (rule load_valid(1)[OF v l])
  show ?thesis using h load_keeps_registers[OF h] by (simp add: new_vm_fields)
qed

text \<open>
  Claim C4, as the code has it.  For a machine whose memory has \<open>SIZE\<close> cells (every
  reachable one, \<open>reachable_memory_length\<close>) and a text whose
  form without whitespace, \<open>code\<close>, has at most \<open>SIZE\<close> characters, all in [33,126]: \<open>load\<close>
  succeeds, every cell \<open>i\<close> below the length \<open>L\<close> of \<open>code\<close> holds the Tryte of the \<open>i\<close>-th code
  point, and every cell \<open>i\<close> with \<open>L \<le> i\<close> and \<open>2 \<le> i\<close> is \<open>crazy\<close> of the two cells before it.
  Cells 0 and 1, when the text does not cover them, are computed from the wrapped addresses
  \<open>-1\<close> and \<open>-2\<close> as read at that moment, which is the memory before the call, not the cells
  that the loop writes there later.
\<close>

theorem load_memory_layout:
  assumes "length (memory s) = nat SIZE"
    and "code = filter (\<lambda>ch. \<not> isspace ch) program"
    and "int (length code) \<le> SIZE"
    and "list_all valid_char code"
  shows "fst (load s program) = Inr () \<and>
     (\<forall>i<length code. memory (snd (load s program)) ! i = Tryte (code ! i)) \<and>
     (\<forall>i. length code \<le> i \<and> 2 \<le> i \<and> i < nat SIZE \<longrightarrow>
         memory (snd (load s program)) ! i =
           crazy (read_unsafe (memory (snd (load s program))) (int i - 1))
                 (read_unsafe (memory (snd (load s program))) (int i - 2))) \<and>
     (length code = 0 \<longrightarrow>
         memory (snd (load s program)) ! 0 =
           crazy (read_unsafe (memory s) (- 1)) (read_unsafe (memory s) (- 2))) \<and>
     (length code \<le> 1 \<longrightarrow>
         memory (snd (load s program)) ! 1 =
           crazy (memory (snd (load s program)) ! 0) (read_unsafe (memory s) (- 1)))"
proof -
  let ?m1 = "snd (load_chars (enumerate 0 code) (memory s))"
  let ?m = "memory (snd (load s program))"
  have ld: "load s program = (Inr (), s\<lparr>memory := fold fill_cell [length code..<nat SIZE] ?m1\<rparr>)"
    by (rule load_ok[OF assms(2,3,4)])
  have m: "?m = fold fill_cell [length code..<nat SIZE] ?m1" by (simp add: ld)
  have l1: "length ?m1 = nat SIZE" using assms(1) by (simp add: length_load_chars)
  have le: "length code \<le> nat SIZE" using assms(3) by simp
  have m1_high: "\<And>j. length code \<le> j \<Longrightarrow> ?m1 ! j = memory s ! j"
    using snd_load_chars[of 0 code "memory s"] le assms(1) by (simp add: takeWhile_all[OF assms(4)])
  have A: "fst (load s program) = Inr ()" by (simp add: ld)
  have B: "\<forall>i<length code. ?m ! i = Tryte (code ! i)"
    using load_program_cell[OF assms(2,3,4,1)] by simp
  have C: "\<forall>i. length code \<le> i \<and> 2 \<le> i \<and> i < nat SIZE \<longrightarrow>
         ?m ! i = crazy (read_unsafe ?m (int i - 1)) (read_unsafe ?m (int i - 2))"
  proof (intro allI impI)
    fix i assume i: "length code \<le> i \<and> 2 \<le> i \<and> i < nat SIZE"
    then have "?m ! i = crazy (?m ! (i - 1)) (?m ! (i - 2))"
      unfolding m using l1 by (intro fold_fill_recurrence) simp_all
    moreover have "read_unsafe ?m (int i - 1) = ?m ! (i - 1)"
      using i by (intro read_unsafe_pred) simp_all
    moreover have "read_unsafe ?m (int i - 2) = ?m ! (i - 2)"
      using i by (intro read_unsafe_pred2) simp_all
    ultimately show "?m ! i = crazy (read_unsafe ?m (int i - 1)) (read_unsafe ?m (int i - 2))"
      by simp
  qed
  have D: "length code = 0 \<longrightarrow>
         ?m ! 0 = crazy (read_unsafe (memory s) (- 1)) (read_unsafe (memory s) (- 2))"
  proof
    assume z: "length code = 0"
    then have "?m1 = memory s" by simp
    then show "?m ! 0 = crazy (read_unsafe (memory s) (- 1)) (read_unsafe (memory s) (- 2))"
      unfolding m using z fold_fill_cell0[OF assms(1)]
      by (simp add: read_unsafe_minus1 read_unsafe_minus2)
  qed
  have E: "length code \<le> 1 \<longrightarrow>
         ?m ! 1 = crazy (?m ! 0) (read_unsafe (memory s) (- 1))"
  proof
    assume z: "length code \<le> 1"
    have "?m1 ! 59048 = memory s ! 59048" using z by (intro m1_high) simp
    then show "?m ! 1 = crazy (?m ! 0) (read_unsafe (memory s) (- 1))"
      unfolding m using fold_fill_cell1[OF z l1] by (simp add: read_unsafe_minus1)
  qed
  from A B C D E show ?thesis by blast
qed

theorem load_memory_layout_witness:
  "length (memory new_vm) = nat SIZE \<and> fst (load new_vm [39]) = Inr () \<and>
   memory (snd (load new_vm [39])) ! 0 = Tryte 39 \<and>
   memory (snd (load new_vm [39])) ! 2 =
     crazy (read_unsafe (memory (snd (load new_vm [39]))) (int 2 - 1))
           (read_unsafe (memory (snd (load new_vm [39]))) (int 2 - 2)) \<and>
   memory (snd (load new_vm [39])) ! 1 =
     crazy (memory (snd (load new_vm [39])) ! 0) (read_unsafe (memory new_vm) (- 1)) \<and>
   memory (snd (load new_vm [])) ! 0 =
     crazy (read_unsafe (memory new_vm) (- 1)) (read_unsafe (memory new_vm) (- 2))"
proof -
  have h1: "length (memory new_vm) = nat SIZE" by (simp add: new_vm_fields length_new_memory)
  have e2: "[] = filter (\<lambda>ch. \<not> isspace ch) []" by simp
  have e3: "int (length ([] :: int list)) \<le> SIZE" by (simp add: SIZE_def)
  have e4: "list_all valid_char []" by simp
  note u = load_memory_layout[OF h1 e2 e3 e4]
  have e: "memory (snd (load new_vm [])) ! 0 =
     crazy (read_unsafe (memory new_vm) (- 1)) (read_unsafe (memory new_vm) (- 2))"
    using u by simp
  have h2: "[39] = filter (\<lambda>ch. \<not> isspace ch) [39]" by (simp add: isspace_def)
  have h3: "int (length [39 :: int]) \<le> SIZE" by (simp add: SIZE_def)
  have h4: "list_all valid_char [39]" by (simp add: valid_char_def)
  note t = load_memory_layout[OF h1 h2 h3 h4]
  have a: "fst (load new_vm [39]) = Inr ()" using t by blast
  have b: "memory (snd (load new_vm [39])) ! 0 = Tryte 39"
    using t by auto
  have "length [39::int] \<le> 2 \<and> (2::nat) \<le> 2 \<and> (2::nat) < nat SIZE" by (simp add: nat_SIZE)
  with t have c: "memory (snd (load new_vm [39])) ! 2 =
     crazy (read_unsafe (memory (snd (load new_vm [39]))) (int 2 - 1))
           (read_unsafe (memory (snd (load new_vm [39]))) (int 2 - 2))"
    by blast
  have "length [39::int] \<le> 1" by simp
  with t have d: "memory (snd (load new_vm [39])) ! 1 =
     crazy (memory (snd (load new_vm [39])) ! 0) (read_unsafe (memory new_vm) (- 1))"
    by blast
  from h1 a b c d e show ?thesis by blast
qed

subsection \<open>The empty text on a new machine\<close>

lemma pred_mod4: "1 \<le> (i::nat) \<Longrightarrow> (i - 1) mod 4 = (i mod 4 + 3) mod 4"
proof -
  assume i: "1 \<le> i"
  have "(i - 1) mod 4 = ((i - 1) + 4) mod 4" by simp
  also have "(i - 1) + 4 = i + 3" using i by simp
  also have "(i + 3) mod 4 = (i mod 4 + 3) mod 4" by (rule mod_add_left_eq[symmetric])
  finally show ?thesis .
qed

lemma pred2_mod4: "2 \<le> (i::nat) \<Longrightarrow> (i - 2) mod 4 = (i mod 4 + 2) mod 4"
proof -
  assume i: "2 \<le> i"
  have "(i - 2) mod 4 = ((i - 2) + 4) mod 4" by simp
  also have "(i - 2) + 4 = i + 2" using i by simp
  also have "(i + 2) mod 4 = (i mod 4 + 2) mod 4" by (rule mod_add_left_eq[symmetric])
  finally show ?thesis .
qed

lemma mod4_cases: "(i::nat) mod 4 = 0 \<or> i mod 4 = 1 \<or> i mod 4 = 2 \<or> i mod 4 = 3"
  by arith

lemma empty_load:
  "load new_vm [] = (Inr (), new_vm\<lparr>memory := fold fill_cell [0..<nat SIZE] new_memory\<rparr>)"
proof -
  have a: "[] = filter (\<lambda>ch. \<not> isspace ch) []" by simp
  have b: "int (length ([]::int list)) \<le> SIZE" by (simp add: SIZE_def)
  have c: "list_all valid_char []" by simp
  show ?thesis using load_ok[OF a b c, of new_vm] by (simp add: new_vm_fields)
qed

lemma empty_load_memory:
  "memory (snd (load new_vm [])) = fold fill_cell [0..<nat SIZE] new_memory"
  by (simp add: empty_load)

lemma empty_load_pattern:
  "i < nat SIZE \<Longrightarrow>
   memory (snd (load new_vm [])) ! i = (if i mod 4 < 2 then 29524 else 0)"
proof (induction i rule: less_induct)
  case (less i)
  let ?m = "fold fill_cell [0..<nat SIZE] new_memory"
  have z: "new_memory ! 59048 = 0" "new_memory ! 59047 = 0"
    by (simp_all add: new_memory_nth nat_SIZE)
  have c0: "?m ! 0 = 29524"
    using fold_fill_cell0[OF length_new_memory] by (simp add: z crazy_values)
  have c1: "?m ! 1 = 29524"
    using fold_fill_cell1[of 0 new_memory] by (simp add: length_new_memory c0 z crazy_values)
  show ?case
  proof (cases "i < 2")
    case True
    then have "i = 0 \<or> i = 1" by arith
    then show ?thesis using c0 c1 by (auto simp: empty_load_memory)
  next
    case False
    then have i2: "2 \<le> i" by simp
    have r: "?m ! i = crazy (?m ! (i - 1)) (?m ! (i - 2))"
      using less.prems i2 by (intro fold_fill_recurrence) (simp_all add: length_new_memory)
    have p1: "?m ! (i - 1) = (if (i - 1) mod 4 < 2 then 29524 else 0)"
      using less.IH[of "i - 1"] less.prems i2 by (simp add: empty_load_memory)
    have p2: "?m ! (i - 2) = (if (i - 2) mod 4 < 2 then 29524 else 0)"
      using less.IH[of "i - 2"] less.prems i2 by (simp add: empty_load_memory)
    have e1: "(i - 1) mod 4 = (i mod 4 + 3) mod 4" using i2 by (intro pred_mod4) simp
    have e2: "(i - 2) mod 4 = (i mod 4 + 2) mod 4" using i2 by (intro pred2_mod4)
    have "crazy (if (i - 1) mod 4 < 2 then 29524 else 0) (if (i - 2) mod 4 < 2 then 29524 else 0)
        = (if i mod 4 < 2 then 29524 else 0)"
      unfolding e1 e2 using mod4_cases[of i] by (elim disjE) (simp_all add: crazy_values)
    then show ?thesis using r p1 p2 by (simp add: empty_load_memory)
  qed
qed

text \<open>
  Claim C4 as stated fails for a text shorter than two characters: after loading the empty
  text on a new machine, cells 0, 1 and 59048 all hold 29524, and \<open>crazy 29524 29524 = 0\<close>, so
  cell 1 is not \<open>crazy\<close> of cell 0 and cell \<open>(1 - 2) mod 59049\<close>.
\<close>

theorem load_recurrence_counterexample:
  "fst (load new_vm []) = Inr () \<and>
   memory (snd (load new_vm [])) ! 1 \<noteq>
     crazy (read_unsafe (memory (snd (load new_vm []))) (1 - 1))
           (read_unsafe (memory (snd (load new_vm []))) (1 - 2))"
proof -
  have a: "fst (load new_vm []) = Inr ()"
    by (simp add: empty_load)
  have c0: "memory (snd (load new_vm [])) ! 0 = 29524"
    using empty_load_pattern[of 0] by (simp add: nat_SIZE)
  have c1: "memory (snd (load new_vm [])) ! 1 = 29524"
    using empty_load_pattern[of 1] by (simp add: nat_SIZE)
  have cl: "memory (snd (load new_vm [])) ! 59048 = 29524"
    using empty_load_pattern[of 59048] by (simp add: nat_SIZE)
  have r0: "read_unsafe (memory (snd (load new_vm []))) 0 = 29524"
    using read_unsafe_nat[of 0 "memory (snd (load new_vm []))"] c0 by (simp add: nat_SIZE)
  have r1: "read_unsafe (memory (snd (load new_vm []))) (- 1) = 29524"
    using read_unsafe_minus1[of "memory (snd (load new_vm []))"] cl by simp
  show ?thesis using a c1 by (simp add: r0 r1 crazy_values)
qed

section \<open>step\<close>


lemma step_fetch_error:
  assumes "\<not> halted s" "mem_read (memory s) (reg_c s) = Inr instr"
    "decrypt_instruction instr (reg_c s) = Inl e"
  shows "step s = (Inl (FailedDecrypt e), s)"
  using assms by (simp add: step_def Let_def)

lemma step_exec:
  assumes "\<not> halted s" "mem_read (memory s) (reg_c s) = Inr instr"
    "decrypt_instruction instr (reg_c s) = Inr op" "mem_read (memory s) (reg_d s) = Inr v"
  shows "step s =
    (if op = ''j'' then increment (s\<lparr>reg_d := v\<rparr>)
     else if op = ''i'' then (Inr True, s\<lparr>reg_c := v\<rparr>)
     else if op = ''*'' then
       increment (s\<lparr>memory := write_unsafe (memory s) (reg_d s) (rotate_right v),
                     reg_a := rotate_right v\<rparr>)
     else if op = ''p'' then
       increment (s\<lparr>memory := write_unsafe (memory s) (reg_d s) (crazy v (reg_a s)),
                     reg_a := crazy v (reg_a s)\<rparr>)
     else if op = ''<'' then
       increment (s\<lparr>vm_output := vm_output s @ [char_of (reg_a s mod 256)]\<rparr>)
     else if op = ''v'' then (Inr False, s\<lparr>halted := True\<rparr>)
     else increment s)"
  using assms by (simp add: step_def Let_def)

lemma vm_ok_increment: "vm_ok s \<Longrightarrow> vm_ok (snd (increment s))"
  by (simp add: increment_def vm_ok_def is_tryte_tryte_add)

lemma vm_ok_step: "vm_ok s \<Longrightarrow> vm_ok (snd (step s))"
proof (cases "halted s")
  case True
  assume "vm_ok s"
  then show ?thesis using True by (simp add: step_def)
next
  case False
  assume ok: "vm_ok s"
  then have c: "mem_read (memory s) (reg_c s) = Inr (memory s ! nat (reg_c s))"
    and d: "mem_read (memory s) (reg_d s) = Inr (memory s ! nat (reg_d s))"
    and v: "is_tryte (memory s ! nat (reg_d s))"
    by (simp_all add: vm_ok_def mem_read_tryte memory_cell_is_tryte)
  show ?thesis
  proof (cases "decrypt_instruction (memory s ! nat (reg_c s)) (reg_c s)")
    case (Inl e)
    show ?thesis using ok by (simp add: step_fetch_error[OF False c Inl])
  next
    case (Inr op)
    have a: "vm_ok (s\<lparr>reg_d := memory s ! nat (reg_d s)\<rparr>)"
      using ok v by (simp add: vm_ok_def)
    have b: "vm_ok (s\<lparr>reg_c := memory s ! nat (reg_d s)\<rparr>)"
      using ok v by (simp add: vm_ok_def)
    have r: "vm_ok (s\<lparr>memory := write_unsafe (memory s) (reg_d s) (rotate_right (memory s ! nat (reg_d s))),
                     reg_a := rotate_right (memory s ! nat (reg_d s))\<rparr>)"
      using ok by (simp add: vm_ok_def is_tryte_rotate_right list_all_write_unsafe length_write_unsafe)
    have p: "vm_ok (s\<lparr>memory := write_unsafe (memory s) (reg_d s) (crazy (memory s ! nat (reg_d s)) (reg_a s)),
                     reg_a := crazy (memory s ! nat (reg_d s)) (reg_a s)\<rparr>)"
      using ok by (simp add: vm_ok_def is_tryte_crazy list_all_write_unsafe length_write_unsafe)
    have out: "vm_ok (s\<lparr>vm_output := vm_output s @ [char_of (reg_a s mod 256)]\<rparr>)"
      using ok by (simp add: vm_ok_def)
    have h: "vm_ok (s\<lparr>halted := True\<rparr>)"
      using ok by (simp add: vm_ok_def)
    show ?thesis
      unfolding step_exec[OF False c Inr d]
      using ok a b r p out h by (simp add: vm_ok_increment)
  qed
qed

lemma reachable_vm_ok: "reachable s \<Longrightarrow> vm_ok s"
  by (induction rule: reachable.induct) (simp_all add: vm_ok_new_vm vm_ok_load vm_ok_step)

lemma reachable_cycles_nonneg: "reachable s \<Longrightarrow> 0 \<le> cycles s"
  using reachable_vm_ok[of s] by (simp add: vm_ok_def)

lemma reachable_memory_length: "reachable s \<Longrightarrow> length (memory s) = nat SIZE"
  using reachable_vm_ok[of s] by (simp add: vm_ok_def)


text \<open>
  Claim C9.  If \<open>step\<close> is called on a machine whose halted flag is set, it returns
  \<open>Ok(False)\<close> and leaves every component of the machine state unchanged.
\<close>

theorem step_when_halted:
  "halted s \<Longrightarrow> step s = (Inr False, s)"
  by (simp add: step_def)

theorem step_when_halted_witness:
  "halted (new_vm\<lparr>halted := True\<rparr>) \<and>
   step (new_vm\<lparr>halted := True\<rparr>) = (Inr False, new_vm\<lparr>halted := True\<rparr>)"
  using step_when_halted[of "new_vm\<lparr>halted := True\<rparr>"] by simp



lemma output_program_step:
  "step (snd (load new_vm [37])) =
     (Inr True, (snd (load new_vm [37]))\<lparr>vm_output := [char_of (0::int)], reg_c := 1, reg_d := 1,
                                           cycles := 1\<rparr>)"
proof -
  let ?s = "snd (load new_vm [37])"
  have v: "list_all valid_char [37]" by (simp add: valid_char_def)
  have l: "int (length [37 :: int]) \<le> SIZE" by (simp add: SIZE_def)
  have cell: "memory ?s ! 0 = 37"
    using load_valid(2)[OF v l, of new_vm 0] by (simp add: new_vm_fields length_new_memory)
  have c: "mem_read (memory ?s) (reg_c ?s) = Inr 37"
    by (simp add: load_new_vm_fields mem_read_0 cell)
  have d: "mem_read (memory ?s) (reg_d ?s) = Inr 37"
    by (simp add: load_new_vm_fields mem_read_0 cell)
  have dec: "decrypt_instruction 37 (reg_c ?s) = Inr ''<''"
    by (simp add: load_new_vm_fields decrypt_instruction_def instructions_def)
  have h: "\<not> halted ?s" by (rule load_new_vm_fields)
  show ?thesis
    unfolding step_exec[OF h c dec d]
    by (simp add: increment_def load_new_vm_fields tryte_add_0_1)
qed

text \<open>
  Claim C3 as stated fails on a machine that has run: after loading \<open>%\<close> (the output
  instruction at address 0) on a new machine and one \<open>step\<close>, a second successful \<open>load\<close> leaves
  the code pointer and the data pointer at 1, one character in the output and the cycle counter
  at 1.
\<close>

theorem load_no_reset_counterexample:
  "fst (load (snd (step (snd (load new_vm [37])))) [37]) = Inr () \<and>
   reg_c (snd (load (snd (step (snd (load new_vm [37])))) [37])) \<noteq> Tryte 0 \<and>
   reg_d (snd (load (snd (step (snd (load new_vm [37])))) [37])) \<noteq> Tryte 0 \<and>
   vm_output (snd (load (snd (step (snd (load new_vm [37])))) [37])) \<noteq> [] \<and>
   cycles (snd (load (snd (step (snd (load new_vm [37])))) [37])) \<noteq> 0"
proof -
  have v: "list_all valid_char [37]" by (simp add: valid_char_def)
  have l: "int (length [37 :: int]) \<le> SIZE" by (simp add: SIZE_def)
  have a: "fst (load (snd (step (snd (load new_vm [37])))) [37]) = Inr ()"
    by (rule load_valid(1)[OF v l])
  show ?thesis
    using a load_frame[of "snd (step (snd (load new_vm [37])))" "[37]"]
    by (simp add: output_program_step Tryte_def MAX_VALUE_def)
qed

section \<open>run\<close>

lemma run_returns_not_fixed:
  assumes "run s m = Some y"
  shows "\<not> (step s = (Inr True, s) \<and> cycles s < m)"
  by (rule run.raw_induct[where P = "\<lambda>s m y. \<not> (step s = (Inr True, s) \<and> cycles s < m)",
        OF _ assms])
     (auto split: if_splits)

lemma run_diverges:
  assumes "step s = (Inr True, s)" "cycles s < m"
  shows "run s m = None"
proof (cases "run s m")
  case None
  then show ?thesis .
next
  case (Some y)
  from run_returns_not_fixed[OF Some] assms show ?thesis by simp
qed

lemma step_cycles_mono: "cycles s \<le> cycles (snd (step s))"
  by (simp add: step_def increment_def Let_def split: sum.splits)

lemma run_result_snd: "snd (run_result s m) = s"
  by (simp add: run_result_def)

lemma run_cycles_mono:
  assumes "run s m = Some y"
  shows "cycles s \<le> cycles (snd y)"
proof (rule run.raw_induct[where P = "\<lambda>s m y. cycles s \<le> cycles (snd y)", OF _ assms])
  fix run' :: "vmstate \<Rightarrow> int \<Rightarrow> ((error + string) \<times> vmstate) option"
  fix s m sa
  assume IH: "\<And>s m y. run' s m = Some y \<Longrightarrow> cycles s \<le> cycles (snd y)"
  assume eq: "(if cycles s < m then
        (case step s of
           (Inl e, s') \<Rightarrow> Some (Inl (ExecutionError (cycles s') e), s')
         | (Inr continue, s') \<Rightarrow>
             if \<not> continue then Some (run_result s' m) else run' s' m)
      else Some (run_result s m)) = Some sa"
  obtain res s' where st: "step s = (res, s')" by (cases "step s")
  have mono: "cycles s \<le> cycles s'" using step_cycles_mono[of s] st by simp
  show "cycles s \<le> cycles (snd sa)"
  proof (cases "cycles s < m")
    case False
    then show ?thesis using eq by (auto simp: run_result_snd)
  next
    case True
    show ?thesis
    proof (cases res)
      case (Inl e)
      then show ?thesis using eq True st mono by auto
    next
      case (Inr continue)
      show ?thesis
      proof (cases continue)
        case False
        then show ?thesis using eq True st mono Inr by (auto simp: run_result_snd)
      next
        case c: True
        then have "run' s' m = Some sa" using eq True st Inr by simp
        from IH[OF this] mono show ?thesis by simp
      qed
    qed
  qed
qed



text \<open>
  Claim C6, as the code has it.  \<open>load\<close> resets nothing, so the scenario holds on a machine
  just created: for a text of one character that decrypts to the halt instruction \<open>v\<close> at
  position 0, loading it on a new machine succeeds, and \<open>run\<close> with fuel limit 10 then returns
  success with the empty output; the machine is halted and its cycle counter is 0.
\<close>

theorem halt_program_run:
  assumes "decrypt_instruction ch 0 = Inr ''v''"
  shows "fst (load new_vm [ch]) = Inr () \<and>
     run (snd (load new_vm [ch])) 10 = Some (Inr [], (snd (load new_vm [ch]))\<lparr>halted := True\<rparr>) \<and>
     cycles ((snd (load new_vm [ch]))\<lparr>halted := True\<rparr>) = 0 \<and>
     success_empty_zero (run (snd (load new_vm [ch])) 10)"
proof -
  let ?s = "snd (load new_vm [ch])"
  have "\<not> (ch < 33 \<or> ch > 126)"
    using assms by (auto simp: decrypt_instruction_def)
  then have v: "list_all valid_char [ch]" by (simp add: valid_char_def)
  have l: "int (length [ch]) \<le> SIZE" by (simp add: SIZE_def)
  have ok: "fst (load new_vm [ch]) = Inr ()" by (rule load_valid(1)[OF v l])
  have cell: "memory ?s ! 0 = ch"
    using load_valid(2)[OF v l, of new_vm 0] by (simp add: new_vm_fields length_new_memory)
  have c: "mem_read (memory ?s) (reg_c ?s) = Inr ch"
    by (simp add: load_new_vm_fields mem_read_0 cell)
  have d: "mem_read (memory ?s) (reg_d ?s) = Inr ch"
    by (simp add: load_new_vm_fields mem_read_0 cell)
  have dec: "decrypt_instruction ch (reg_c ?s) = Inr ''v''"
    using assms by (simp add: load_new_vm_fields)
  have h: "\<not> halted ?s" by (rule load_new_vm_fields)
  have st: "step ?s = (Inr False, ?s\<lparr>halted := True\<rparr>)"
    unfolding step_exec[OF h c dec d] by simp
  have "run ?s 10 = Some (run_result (?s\<lparr>halted := True\<rparr>) 10)"
    by (subst run.simps) (simp add: st load_new_vm_fields)
  then have r: "run ?s 10 = Some (Inr [], ?s\<lparr>halted := True\<rparr>)"
    by (simp add: run_result_def load_new_vm_fields)
  show ?thesis using ok r by (simp add: load_new_vm_fields success_empty_zero_def)
qed

theorem halt_program_run_witness:
  "decrypt_instruction 39 0 = Inr ''v'' \<and> fst (load new_vm [39]) = Inr () \<and>
   run (snd (load new_vm [39])) 10 = Some (Inr [], (snd (load new_vm [39]))\<lparr>halted := True\<rparr>) \<and>
   cycles ((snd (load new_vm [39]))\<lparr>halted := True\<rparr>) = 0 \<and>
   success_empty_zero (run (snd (load new_vm [39])) 10)"
proof -
  have h: "decrypt_instruction 39 0 = Inr ''v''"
    by (simp add: decrypt_instruction_def instructions_def)
  show ?thesis using h halt_program_run[OF h] by blast
qed

text \<open>
  Claim C6 as stated, with the machine left open, fails on a machine that has run: after
  loading \<open>%\<close> on a new machine and one \<open>step\<close>, loading the halt character \<open>'\<close> (code point 39)
  succeeds and leaves one character in the output and the cycle counter at 1.  \<open>step\<close> never
  lowers the cycle counter, so \<open>run\<close> with fuel limit 10 cannot return on a machine whose
  cycle counter is 0.
\<close>

theorem halt_after_use_counterexample:
  "fst (load (snd (step (snd (load new_vm [37])))) [39]) = Inr () \<and>
   decrypt_instruction 39 0 = Inr ''v'' \<and>
   cycles (snd (load (snd (step (snd (load new_vm [37])))) [39])) = 1 \<and>
   vm_output (snd (load (snd (step (snd (load new_vm [37])))) [39])) = [char_of (0::int)] \<and>
   \<not> success_empty_zero (run (snd (load (snd (step (snd (load new_vm [37])))) [39])) 10)"
proof -
  let ?s1 = "snd (step (snd (load new_vm [37])))"
  let ?s2 = "snd (load ?s1 [39])"
  have v: "list_all valid_char [39]" by (simp add: valid_char_def)
  have l: "int (length [39 :: int]) \<le> SIZE" by (simp add: SIZE_def)
  have a: "fst (load ?s1 [39]) = Inr ()" by (rule load_valid(1)[OF v l])
  have d: "decrypt_instruction 39 0 = Inr ''v''"
    by (simp add: decrypt_instruction_def instructions_def)
  have c: "cycles ?s2 = 1" and o: "vm_output ?s2 = [char_of (0::int)]"
    using load_frame[of ?s1 "[39]"] by (simp_all add: output_program_step)
  have r: "\<not> success_empty_zero (run ?s2 10)"
  proof (cases "run ?s2 10")
    case None
    then show ?thesis by (simp add: success_empty_zero_def)
  next
    case (Some y)
    from run_cycles_mono[OF Some] c have "cycles (snd y) \<noteq> 0" by simp
    then show ?thesis using Some by (auto simp: success_empty_zero_def split: prod.splits)
  qed
  from a d c o r show ?thesis by blast
qed

lemma jump_loop_program_facts:
  "list_all valid_char jump_loop_program" "int (length jump_loop_program) \<le> SIZE"
  "jump_loop_program ! 0 = 34" "jump_loop_program ! 34 = 94" "length jump_loop_program = 35"
  by (simp_all add: jump_loop_program_def valid_char_def SIZE_def list_all_iff nth_append)

lemma jump_loop_first_step:
  "step (snd (load new_vm jump_loop_program)) =
     (Inr True, (snd (load new_vm jump_loop_program))\<lparr>reg_c := 34\<rparr>)"
proof -
  let ?s = "snd (load new_vm jump_loop_program)"
  have cell: "memory ?s ! 0 = 34"
    using load_valid(2)[OF jump_loop_program_facts(1,2), of new_vm 0]
    by (simp add: new_vm_fields length_new_memory jump_loop_program_facts)
  have c: "mem_read (memory ?s) (reg_c ?s) = Inr 34"
    by (simp add: load_new_vm_fields mem_read_0 cell)
  have d: "mem_read (memory ?s) (reg_d ?s) = Inr 34"
    by (simp add: load_new_vm_fields mem_read_0 cell)
  have dec: "decrypt_instruction 34 (reg_c ?s) = Inr ''i''"
    by (simp add: load_new_vm_fields decrypt_instruction_def instructions_def)
  have h: "\<not> halted ?s" by (rule load_new_vm_fields)
  show ?thesis unfolding step_exec[OF h c dec d] by simp
qed

lemma jump_loop_fixed_step:
  "step ((snd (load new_vm jump_loop_program))\<lparr>reg_c := 34\<rparr>) =
     (Inr True, (snd (load new_vm jump_loop_program))\<lparr>reg_c := 34\<rparr>)"
proof -
  let ?s = "snd (load new_vm jump_loop_program)"
  let ?t = "?s\<lparr>reg_c := 34\<rparr>"
  have cell0: "memory ?s ! 0 = 34"
    using load_valid(2)[OF jump_loop_program_facts(1,2), of new_vm 0]
    by (simp add: new_vm_fields length_new_memory jump_loop_program_facts)
  have cell34: "memory ?s ! 34 = 94"
    using load_valid(2)[OF jump_loop_program_facts(1,2), of new_vm 34]
    by (simp add: new_vm_fields length_new_memory jump_loop_program_facts)
  have c: "mem_read (memory ?t) (reg_c ?t) = Inr 94"
    using mem_read_cell[of 34 "memory ?s"] by (simp add: cell34 nat_SIZE)
  have d: "mem_read (memory ?t) (reg_d ?t) = Inr 34"
    by (simp add: load_new_vm_fields mem_read_0 cell0)
  have dec: "decrypt_instruction 94 (reg_c ?t) = Inr ''i''"
    by (simp add: decrypt_instruction_def instructions_def)
  have h: "\<not> halted ?t" by (simp add: load_new_vm_fields)
  show ?thesis unfolding step_exec[OF h c dec d] by simp
qed

text \<open>
  Claim C1 fails on the code.  The instruction \<open>i\<close> returns from \<open>step\<close> before the cycle
  counter is incremented, so a program that keeps executing \<open>i\<close> never uses fuel.  After
  loading \<open>jump_loop_program\<close> on a new machine, the first \<open>step\<close> sets the code pointer to 34 and
  every later \<open>step\<close> leaves the state as it is, with the cycle counter at 0: \<open>run\<close> does not
  return, whatever the positive fuel limit.
\<close>

theorem jump_loop_never_returns:
  "fst (load new_vm jump_loop_program) = Inr () \<and>
   run (snd (load new_vm jump_loop_program)) 1 = None \<and>
   run (snd (load new_vm jump_loop_program)) 1000000 = None"
proof -
  let ?s = "snd (load new_vm jump_loop_program)"
  let ?t = "?s\<lparr>reg_c := 34\<rparr>"
  have ok: "fst (load new_vm jump_loop_program) = Inr ()"
    by (rule load_valid(1)[OF jump_loop_program_facts(1,2)])
  have div: "\<And>m. 0 < m \<Longrightarrow> run ?s m = None"
  proof -
    fix m :: int assume m: "0 < m"
    have "run ?t m = None"
      using m by (intro run_diverges[OF jump_loop_fixed_step]) (simp add: load_new_vm_fields)
    moreover have "run ?s m = run ?t m"
      using m by (subst run.simps) (simp add: jump_loop_first_step load_new_vm_fields)
    ultimately show "run ?s m = None" by simp
  qed
  show ?thesis using ok div[of 1] div[of 1000000] by simp
qed

end
